theory Spec2Isabelle
  imports Complex_Main "HOL-Library.Multiset"
begin

section \<open>The hazana load runner: data model\<close>

text \<open>
  The development embeds \<^verbatim>\<open>runner.go\<close> of the hazana load runner. Two revisions of the
  file are verified: the earlier one, whose \<^verbatim>\<open>rampUp\<close> holds the linear ramp-up inline, and
  the later one, whose \<^verbatim>\<open>rampUp\<close> selects a strategy by name and whose \<^verbatim>\<open>test\<close> takes a call
  count. The functions both revisions share (\<^verbatim>\<open>init\<close>, \<^verbatim>\<open>spawnAttacker\<close>, \<^verbatim>\<open>addResult\<close>,
  \<^verbatim>\<open>fullAttack\<close>, \<^verbatim>\<open>quitAttackers\<close>, \<^verbatim>\<open>tearDownAttackers\<close>, \<^verbatim>\<open>collectResults\<close>) are embedded once.

  Conventions of the embedding.
  \<^item> Go's \<^verbatim>\<open>int\<close> is modelled by the unbounded \<^typ>\<open>int\<close> (no configuration a load test can
    run reaches 64-bit wrap-around); \<^verbatim>\<open>float64\<close> is modelled by \<^typ>\<open>real\<close>, so rounding of
    the floating-point division is idealised.
  \<^item> The \<^verbatim>\<open>Attack\<close> implementation is external. Its four operations are parameters of
    the model and act on an explicit world state \<open>'w\<close>; attacker instances are handles
    of type \<open>'a\<close>.
  \<^item> Every call the runner makes to the outside (an \<^verbatim>\<open>Attack\<close> operation, a goroutine
    start, a new rate limiter, a send on the \<^verbatim>\<open>next\<close> or \<^verbatim>\<open>quit\<close> channel) is appended to a
    trace, in the order of the runner's own control flow. A send is recorded when the
    runner issues it.
  \<^item> A call through a nil function value and a nil pointer dereference are panics, and
    a send on an unbuffered channel that no goroutine is left to receive never
    completes: a fallible operation returns \<open>panic + runner\<close>, with \<open>Inl\<close> the failure.
  \<^item> Clock readings (how often a timed loop iterates, the elapsed window of a metrics
    record) and the outcomes that reach the collecting goroutine in a phase are inputs
    supplied by the environment. The rate limiter is a library: making one is an event
    of the trace, and its pacing is part of the clock. Log output is not modelled.
  \<^item> The collecting goroutine runs beside the runner. The model lets it process the
    outcomes of a phase after the dispatch signals of that phase; the two touch
    different fields, so the order between them does not show in the runner.
\<close>

record Config =
  RPS :: int
  AttackTimeSec :: int
  RampupTimeSec :: int
  MaxAttackers :: int
  Verbose :: bool
  OutputFilename :: string

record DoResult =
  RequestLabel :: string
  StatusCode :: int
  Error :: "string option"

text \<open>
  Modelled from the spec: the declaration of \<^verbatim>\<open>result\<close> is not part of the verified
  files. A call outcome carries the \<^verbatim>\<open>DoResult\<close> of the call and its latency measurement.
\<close>

record result =
  doResult :: DoResult
  latency :: int

text \<open>
  Modelled from the spec: the declaration of \<^verbatim>\<open>Metrics\<close> and its methods \<^verbatim>\<open>add\<close> and
  \<^verbatim>\<open>updateLatencies\<close> are not part of the verified files. A record holds the call count, the
  error count, the raw latency samples in arrival order and the derived rate;
  \<^verbatim>\<open>add\<close> increments the count, increments the error count if the outcome carries an
  error, and records the latency sample; \<^verbatim>\<open>updateLatencies\<close> derives the rate as count
  divided by the elapsed window, which the clock supplies.
\<close>

record Metrics =
  Requests :: nat
  Errors :: nat
  latencies :: "int list"
  Rate :: real

definition new_Metrics :: Metrics where
  "new_Metrics = \<lparr>Requests = 0, Errors = 0, latencies = [], Rate = 0\<rparr>"

definition add :: "Metrics \<Rightarrow> result \<Rightarrow> Metrics" where
  "add m s =
     m\<lparr>Requests := Requests m + 1,
       Errors := (if Error (doResult s) \<noteq> None then Errors m + 1 else Errors m),
       latencies := latencies m @ [latency s]\<rparr>"

definition updateLatencies :: "real \<Rightarrow> Metrics \<Rightarrow> Metrics" where
  "updateLatencies window m = m\<lparr>Rate := real (Requests m) / window\<rparr>"

text \<open>
  The external \<^verbatim>\<open>Attack\<close> interface. Each operation may change the world; \<^verbatim>\<open>Setup\<close> and
  \<^verbatim>\<open>Teardown\<close> return an optional error (\<open>None\<close> is Go's \<^verbatim>\<open>nil\<close>).
\<close>

record ('a, 'w) Attack =
  Clone :: "'a \<Rightarrow> 'w \<Rightarrow> 'a \<times> 'w"
  Setup :: "'a \<Rightarrow> Config \<Rightarrow> 'w \<Rightarrow> string option \<times> 'w"
  Do :: "'a \<Rightarrow> 'w \<Rightarrow> DoResult \<times> 'w"
  Teardown :: "'a \<Rightarrow> 'w \<Rightarrow> string option \<times> 'w"

datatype 'a event =
    CloneCall 'a
  | SetupCall 'a
  | DoCall 'a
  | TeardownCall 'a
  | Go 'a
  | NewLimiter int
  | SendNext
  | SendQuit
  | ValidateCall

text \<open>
  The value of the field \<^verbatim>\<open>resultsPipeline\<close>: \<open>NilFunc\<close> in a runner made by \<^verbatim>\<open>new(runner)\<close>,
  the method value \<^verbatim>\<open>r.addResult\<close>, or the closure of a ramp-up step that adds to the
  step's own \<^verbatim>\<open>rampMetrics\<close>.
\<close>

datatype pipeline = NilFunc | AddResult | RampAdd

datatype panic = NilFuncCall | NilPointer | Deadlock

text \<open>
  The runner. \<open>rampMetrics\<close> is the local pointer variable of \<^verbatim>\<open>rampUp\<close> that the step's
  closure captures (\<open>None\<close> is \<^verbatim>\<open>nil\<close>); \<open>world\<close> and \<open>trace\<close> are the outside as the runner
  has driven it.
\<close>

record ('a, 'w) runner =
  config :: Config
  attackers :: "'a list"
  prototype :: 'a
  metrics :: "string \<rightharpoonup> Metrics"
  resultsPipeline :: pipeline
  rampMetrics :: "Metrics option"
  world :: 'w
  trace :: "'a event list"

section \<open>The runner's operations\<close>

definition new_runner :: "'a \<Rightarrow> Config \<Rightarrow> 'w \<Rightarrow> ('a, 'w) runner" where
  "new_runner a c w =
     \<lparr>config = c, attackers = [], prototype = a, metrics = Map.empty,
      resultsPipeline = NilFunc, rampMetrics = None, world = w, trace = []\<rparr>"

definition init :: "('a, 'w) runner \<Rightarrow> ('a, 'w) runner" where
  "init r = r\<lparr>attackers := [], metrics := Map.empty, resultsPipeline := AddResult\<rparr>"

text \<open>
  \<^verbatim>\<open>spawnAttacker\<close>: clone the prototype, set the clone up; on an error return at once,
  otherwise append the clone to \<^verbatim>\<open>attackers\<close> and start its goroutine.
\<close>

definition spawnAttacker :: "('a, 'w) Attack \<Rightarrow> ('a, 'w) runner \<Rightarrow> ('a, 'w) runner" where
  "spawnAttacker A r =
     (let (attacker, w1) = Clone A (prototype r) (world r);
          (err, w2) = Setup A attacker (config r) w1
      in if err \<noteq> None
         then r\<lparr>world := w2, trace := trace r @ [CloneCall attacker, SetupCall attacker]\<rparr>
         else r\<lparr>attackers := attackers r @ [attacker], world := w2,
                 trace := trace r @ [CloneCall attacker, SetupCall attacker, Go attacker]\<rparr>)"

text \<open>The goroutines started so far, in the order of their start.\<close>

definition started :: "'a event list \<Rightarrow> 'a list" where
  "started t = concat (map (\<lambda>e. case e of Go a \<Rightarrow> [a] | _ \<Rightarrow> []) t)"

text \<open>
  Modelled from the spec: the function \<^verbatim>\<open>attack\<close>, the body of an attacker's goroutine, is
  not part of the verified files. A unit waits for a signal; on a dispatch signal it makes
  one call and waits again; on a quit signal it retires and consumes no further signal.
  The channels are unbuffered, so a send completes only when a unit that has not retired
  receives it. The live units are those started and not yet retired: every quit signal
  sent has retired one.
\<close>

definition liveUnits :: "'a event list \<Rightarrow> nat" where
  "liveUnits t = length (started t) - count_list t SendQuit"

text \<open>
  \<^verbatim>\<open>addResult\<close>: look the outcome's label up in the metrics map, enter a new record
  when it is absent, and add the outcome to the record. The Go function also returns
  its argument unchanged, which the caller drops.
\<close>

definition addResult :: "('a, 'w) runner \<Rightarrow> result \<Rightarrow> ('a, 'w) runner" where
  "addResult r s =
     (let label = RequestLabel (doResult s);
          m = (case metrics r label of None \<Rightarrow> new_Metrics | Some m0 \<Rightarrow> m0)
      in r\<lparr>metrics := (metrics r)(label \<mapsto> add m s)\<rparr>)"

text \<open>
  One iteration of \<^verbatim>\<open>collectResults\<close>: the outcome received from the \<^verbatim>\<open>results\<close> channel is
  passed to the function that the field \<^verbatim>\<open>resultsPipeline\<close> holds at that moment.
\<close>

definition collect :: "('a, 'w) runner \<Rightarrow> result \<Rightarrow> panic + ('a, 'w) runner" where
  "collect r s =
     (case resultsPipeline r of
        NilFunc \<Rightarrow> Inl NilFuncCall
      | AddResult \<Rightarrow> Inr (addResult r s)
      | RampAdd \<Rightarrow>
          (case rampMetrics r of
             None \<Rightarrow> Inl NilPointer
           | Some m \<Rightarrow> Inr (r\<lparr>rampMetrics := Some (add m s)\<rparr>)))"

text \<open>
  \<^verbatim>\<open>collectResults\<close> never returns; the model runs it over the outcomes that arrive
  during one phase of the run.
\<close>

fun collectResults :: "('a, 'w) runner \<Rightarrow> result list \<Rightarrow> panic + ('a, 'w) runner" where
  "collectResults r [] = Inr r"
| "collectResults r (s # ss) =
     (case collect r s of Inl p \<Rightarrow> Inl p | Inr r' \<Rightarrow> collectResults r' ss)"

text \<open>
  The timed loop \<^verbatim>\<open>for time.Now().Before(deadline) { limiter.Take(); r.next <- true }\<close>,
  for the number of iterations the clock allows.
\<close>

primrec dispatch :: "nat \<Rightarrow> ('a, 'w) runner \<Rightarrow> panic + ('a, 'w) runner" where
  "dispatch 0 r = Inr r"
| "dispatch (Suc n) r =
     (if liveUnits (trace r) = 0 then Inl Deadlock
      else dispatch n (r\<lparr>trace := trace r @ [SendNext]\<rparr>))"

definition fullAttack :: "nat \<Rightarrow> result list \<Rightarrow> ('a, 'w) runner \<Rightarrow> panic + ('a, 'w) runner" where
  "fullAttack n arriving r =
     (let r1 = r\<lparr>trace := trace r @ [NewLimiter (RPS (config r))]\<rparr>
      in case dispatch n r1 of
           Inl p \<Rightarrow> Inl p
         | Inr r2 \<Rightarrow> collectResults r2 arriving)"

text \<open>The loop \<^verbatim>\<open>for range r.attackers { r.quit <- true }\<close>, over the remaining instances.\<close>

fun quitLoop :: "('a, 'w) runner \<Rightarrow> 'a list \<Rightarrow> panic + ('a, 'w) runner" where
  "quitLoop r [] = Inr r"
| "quitLoop r (each # rest) =
     (if liveUnits (trace r) = 0 then Inl Deadlock
      else quitLoop (r\<lparr>trace := trace r @ [SendQuit]\<rparr>) rest)"

definition quitAttackers :: "('a, 'w) runner \<Rightarrow> panic + ('a, 'w) runner" where
  "quitAttackers r = quitLoop r (attackers r)"

definition tearDownAttackers :: "('a, 'w) Attack \<Rightarrow> ('a, 'w) runner \<Rightarrow> ('a, 'w) runner" where
  "tearDownAttackers A r =
     foldl (\<lambda>r' each.
              let (err, w) = Teardown A each (world r')
              in r'\<lparr>world := w, trace := trace r' @ [TeardownCall each]\<rparr>)
       r (attackers r)"

subsection \<open>The linear ramp-up (earlier revision of \<^verbatim>\<open>rampUp\<close>)\<close>

text \<open>Go's integer division truncates toward zero.\<close>

definition go_div :: "int \<Rightarrow> int \<Rightarrow> int" where
  "go_div a b = sgn a * sgn b * (\<bar>a\<bar> div \<bar>b\<bar>)"

text \<open>\<^verbatim>\<open>int(math.Trunc(x))\<close>.\<close>

definition trunc :: "real \<Rightarrow> int" where
  "trunc x = (if 0 \<le> x then \<lfloor>x\<rfloor> else \<lceil>x\<rceil>)"

definition spawnThresholdRatio :: real where
  "spawnThresholdRatio = 9 / 10"

text \<open>
  The rate of step \<open>i\<close>: \<^verbatim>\<open>rps := i * r.config.RPS / r.config.RampupTimeSec\<close>, raised to 1
  when it is 0. Inside the loop \<open>1 \<le> i \<le> RampupTimeSec\<close>, so the divisor is not zero.
\<close>

definition stepRPS :: "Config \<Rightarrow> int \<Rightarrow> int" where
  "stepRPS c i =
     (let rps = go_div (i * RPS c) (RampupTimeSec c)
      in if rps = 0 then 1 else rps)"

text \<open>
  The spawn loop \<^verbatim>\<open>for s := len(r.attackers); s < wanted; s++\<close>. The \<^verbatim>\<open>break\<close> stands inside
  \<^verbatim>\<open>if r.config.Verbose\<close>: a quiet run counts on to \<open>wanted\<close> without spawning.
\<close>

function spawnLoop ::
  "('a, 'w) Attack \<Rightarrow> int \<Rightarrow> int \<Rightarrow> ('a, 'w) runner \<Rightarrow> ('a, 'w) runner" where
  "spawnLoop A s wanted r =
     (if s < wanted
      then (if s < MaxAttackers (config r)
            then spawnLoop A (s + 1) wanted (spawnAttacker A r)
            else if Verbose (config r) then r
            else spawnLoop A (s + 1) wanted r)
      else r)"
  by pat_completeness auto
termination
  by (relation "measure (\<lambda>(A, s, wanted, r). nat (wanted - s))") auto

declare spawnLoop.simps [simp del]

text \<open>
  The decision at the end of a step, for the step's rate \<open>rps\<close>: the measured rate is read
  from the step's record.
\<close>

definition growPool ::
  "('a, 'w) Attack \<Rightarrow> int \<Rightarrow> real \<Rightarrow> ('a, 'w) runner \<Rightarrow> ('a, 'w) runner" where
  "growPool A rps rate r =
     (if 0 < rate \<and> rate < real_of_int rps
      then (if rate / real_of_int rps < spawnThresholdRatio
            then (let wanted = trunc (real_of_int rps / rate) * int (length (attackers r))
                  in spawnLoop A (int (length (attackers r))) wanted r)
            else r)
      else r)"

text \<open>
  What the environment supplies to one step: the iterations of the one-second loop, the
  outcomes the collector receives meanwhile, and the elapsed window of the step's record.
\<close>

record step_obs =
  ticks :: nat
  arrived :: "result list"
  window :: real

text \<open>The body of the loop \<^verbatim>\<open>for i := 1; i <= r.config.RampupTimeSec; i++\<close>.\<close>

definition rampStep ::
  "('a, 'w) Attack \<Rightarrow> step_obs \<Rightarrow> int \<Rightarrow> ('a, 'w) runner \<Rightarrow> panic + ('a, 'w) runner" where
  "rampStep A ob i r =
     (let r1 = r\<lparr>rampMetrics := Some new_Metrics, resultsPipeline := RampAdd\<rparr>;
          rps = stepRPS (config r1) i
      in case dispatch (ticks ob) (r1\<lparr>trace := trace r1 @ [NewLimiter rps]\<rparr>) of
           Inl p \<Rightarrow> Inl p
         | Inr r2 \<Rightarrow>
             (case collectResults r2 (arrived ob) of
                Inl p \<Rightarrow> Inl p
              | Inr r3 \<Rightarrow>
                  (case rampMetrics r3 of
                     None \<Rightarrow> Inl NilPointer
                   | Some m \<Rightarrow>
                       (let m' = updateLatencies (window ob) m
                        in Inr (growPool A rps (Rate m') (r3\<lparr>rampMetrics := Some m'\<rparr>))))))"

text \<open>
  The loop over the steps. The bound \<open>n\<close> is \<^verbatim>\<open>r.config.RampupTimeSec\<close>, which the Go code
  reads again at every iteration; no statement of the runner assigns to \<^verbatim>\<open>r.config\<close>
  after \<^verbatim>\<open>Run\<close> has set it. The environment is indexed by the step number.
\<close>

function rampLoop ::
  "('a, 'w) Attack \<Rightarrow> (int \<Rightarrow> step_obs) \<Rightarrow> int \<Rightarrow> int \<Rightarrow> ('a, 'w) runner
     \<Rightarrow> panic + ('a, 'w) runner" where
  "rampLoop A obs n i r =
     (if i \<le> n
      then (case rampStep A (obs i) i r of
              Inl p \<Rightarrow> Inl p
            | Inr r' \<Rightarrow> rampLoop A obs n (i + 1) r')
      else Inr r)"
  by pat_completeness auto
termination
  by (relation "measure (\<lambda>(A, obs, n, i, r). nat (n + 1 - i))") auto

declare rampLoop.simps [simp del]

text \<open>
  \<^verbatim>\<open>rampUp\<close> of the earlier revision: one bootstrap spawn, the steps, the pipeline restored.
  The closing log line of a verbose run reads \<^verbatim>\<open>rampMetrics.Rate\<close>, a nil pointer when no step
  has run.
\<close>

definition rampUp_linear ::
  "('a, 'w) Attack \<Rightarrow> (int \<Rightarrow> step_obs) \<Rightarrow> ('a, 'w) runner \<Rightarrow> panic + ('a, 'w) runner" where
  "rampUp_linear A obs r =
     (let r0 = (spawnAttacker A r)\<lparr>rampMetrics := None\<rparr>
      in case rampLoop A obs (RampupTimeSec (config r0)) 1 r0 of
           Inl p \<Rightarrow> Inl p
         | Inr r1 \<Rightarrow>
             (let r2 = r1\<lparr>resultsPipeline := AddResult\<rparr>
              in if Verbose (config r2) \<and> rampMetrics r2 = None
                 then Inl NilPointer else Inr r2))"

text \<open>
  The runner after the bootstrap spawn and the first \<open>k\<close> steps of the linear ramp-up
  with \<open>n\<close> steps in all: the states the loop of \<open>rampUp_linear\<close> passes through.
\<close>

primrec rampAfter ::
  "('a, 'w) Attack \<Rightarrow> (int \<Rightarrow> step_obs) \<Rightarrow> nat \<Rightarrow> ('a, 'w) runner \<Rightarrow> panic + ('a, 'w) runner" where
  "rampAfter A obs 0 r = Inr ((spawnAttacker A r)\<lparr>rampMetrics := None\<rparr>)"
| "rampAfter A obs (Suc k) r =
     (case rampAfter A obs k r of
        Inl p \<Rightarrow> Inl p
      | Inr r' \<Rightarrow> rampStep A (obs (int k + 1)) (int k + 1) r')"

subsection \<open>The later revision: strategies, sample mode, the whole run\<close>

text \<open>
  What the later revision takes from files that are not verified here: the sample
  flag \<^verbatim>\<open>*oSample\<close>, the methods \<^verbatim>\<open>Validate\<close> and \<^verbatim>\<open>rampupStrategy\<close> of \<^verbatim>\<open>Config\<close>, and the \<^verbatim>\<open>execute\<close>
  methods of the two ramp-up strategies, each an arbitrary operation on the runner.
  With them stand the clock readings of the steady-state phase and of the report.
\<close>

record ('a, 'w) outside =
  oSample :: int
  Validate :: "Config \<Rightarrow> string list"
  rampupStrategy :: "Config \<Rightarrow> string"
  linearExecute :: "('a, 'w) runner \<Rightarrow> panic + ('a, 'w) runner"
  spawnAsWeNeedExecute :: "('a, 'w) runner \<Rightarrow> panic + ('a, 'w) runner"
  fullTicks :: nat
  fullArrived :: "result list"
  fullAttackStartedAt :: int
  finishedAt :: int
  windows :: "string \<Rightarrow> real"

definition rampUp :: "('a, 'w) outside \<Rightarrow> ('a, 'w) runner \<Rightarrow> panic + ('a, 'w) runner" where
  "rampUp E r =
     (let strategy = rampupStrategy E (config r)
      in case (if strategy = ''linear'' then linearExecute E r
               else if strategy = ''exp2'' then spawnAsWeNeedExecute E r
               else Inr r) of
           Inl p \<Rightarrow> Inl p
         | Inr r1 \<Rightarrow> Inr (r1\<lparr>resultsPipeline := AddResult\<rparr>))"

text \<open>The loop \<^verbatim>\<open>for s := count; s > 0; s--\<close> of \<^verbatim>\<open>test\<close>.\<close>

function testLoop ::
  "('a, 'w) Attack \<Rightarrow> 'a \<Rightarrow> int \<Rightarrow> ('a, 'w) runner \<Rightarrow> ('a, 'w) runner" where
  "testLoop A probe s r =
     (if 0 < s
      then (let (res, w) = Do A probe (world r)
            in testLoop A probe (s - 1) (r\<lparr>world := w, trace := trace r @ [DoCall probe]\<rparr>))
      else r)"
  by pat_completeness auto
termination
  by (relation "measure (\<lambda>(A, probe, s, r). nat s)") auto

declare testLoop.simps [simp del]

text \<open>
  \<^verbatim>\<open>test\<close>: clone and set up a probe; on a setup error return; otherwise make the calls
  and run the deferred \<^verbatim>\<open>Teardown\<close>, whose result is dropped.
\<close>

definition test :: "('a, 'w) Attack \<Rightarrow> int \<Rightarrow> ('a, 'w) runner \<Rightarrow> ('a, 'w) runner" where
  "test A cnt r =
     (let (probe, w1) = Clone A (prototype r) (world r);
          (err, w2) = Setup A probe (config r) w1;
          r1 = r\<lparr>world := w2, trace := trace r @ [CloneCall probe, SetupCall probe]\<rparr>
      in if err \<noteq> None then r1
         else (let r2 = testLoop A probe cnt r1;
                   (err', w3) = Teardown A probe (world r2)
               in r2\<lparr>world := w3, trace := trace r2 @ [TeardownCall probe]\<rparr>))"

record RunReport =
  StartedAt :: int
  FinishedAt :: int
  Configuration :: Config
  ReportMetrics :: "string \<rightharpoonup> Metrics"

text \<open>
  \<^verbatim>\<open>reportMetrics\<close>: every record of the map is finalised, each over its own window, and
  the report is assembled.
\<close>

definition reportMetrics :: "('a, 'w) outside \<Rightarrow> ('a, 'w) runner \<Rightarrow> RunReport" where
  "reportMetrics E r =
     \<lparr>StartedAt = fullAttackStartedAt E, FinishedAt = finishedAt E,
      Configuration = config r,
      ReportMetrics = (\<lambda>l. map_option (updateLatencies (windows E l)) (metrics r l))\<rparr>"

definition run ::
  "('a, 'w) Attack \<Rightarrow> ('a, 'w) outside \<Rightarrow> ('a, 'w) runner
     \<Rightarrow> panic + RunReport \<times> ('a, 'w) runner" where
  "run A E r =
     (case rampUp E r of
        Inl p \<Rightarrow> Inl p
      | Inr r1 \<Rightarrow>
          (case fullAttack (fullTicks E) (fullArrived E) r1 of
             Inl p \<Rightarrow> Inl p
           | Inr r2 \<Rightarrow>
               (case quitAttackers r2 of
                  Inl p \<Rightarrow> Inl p
                | Inr r3 \<Rightarrow>
                    (let r4 = tearDownAttackers A r3
                     in Inr (reportMetrics E r4, r4)))))"

text \<open>
  How \<^verbatim>\<open>Run\<close> ends: the process exits with a status, or \<^verbatim>\<open>Run\<close> returns a report, or a
  panic or a deadlock ends it. The final runner is kept for its trace.
\<close>

datatype ('a, 'w) ending =
    Exited int "('a, 'w) runner"
  | Returned RunReport "('a, 'w) runner"
  | Panicked panic

definition Run ::
  "('a, 'w) Attack \<Rightarrow> ('a, 'w) outside \<Rightarrow> 'a \<Rightarrow> Config \<Rightarrow> 'w \<Rightarrow> ('a, 'w) ending" where
  "Run A E a c w =
     (let r = new_runner a c w
      in if 0 < oSample E then Exited 0 (test A (oSample E) r)
         else (let r1 = r\<lparr>trace := trace r @ [ValidateCall]\<rparr>
               in if Validate E c \<noteq> [] then Exited 0 r1
                  else (case run A E (init r1) of
                          Inl p \<Rightarrow> Panicked p
                        | Inr (report, r2) \<Rightarrow> Returned report r2)))"

subsection \<open>Observations on traces\<close>

text \<open>
  The number of \<^verbatim>\<open>Clone\<close> calls in a trace; a trace that holds nothing but the calls of
  \<^verbatim>\<open>spawnAttacker\<close>; and the relation between a runner and a later one that differs from it
  by spawned attackers only: the pool has grown by the units started, and nothing but the
  pool, the world and the trace has changed.
\<close>

definition cloneCalls :: "'a event list \<Rightarrow> nat" where
  "cloneCalls t = length (filter (\<lambda>e. case e of CloneCall _ \<Rightarrow> True | _ \<Rightarrow> False) t)"

definition spawnTrace :: "'a event list \<Rightarrow> bool" where
  "spawnTrace t =
     list_all (\<lambda>e. case e of CloneCall _ \<Rightarrow> True | SetupCall _ \<Rightarrow> True | Go _ \<Rightarrow> True
                    | _ \<Rightarrow> False) t"

definition poolGrowth :: "('a, 'w) runner \<Rightarrow> ('a, 'w) runner \<Rightarrow> bool" where
  "poolGrowth r r' =
     (\<exists>w t. r' = r\<lparr>attackers := attackers r @ started t, world := w, trace := trace r @ t\<rparr>
            \<and> spawnTrace t)"

text \<open>
  The record of a ramp-up step when the step reads its rate: the outcomes that arrived,
  added to a new record, and the rate derived over the step's window.
\<close>

definition stepRecord :: "step_obs \<Rightarrow> Metrics" where
  "stepRecord ob = updateLatencies (window ob) (foldl add new_Metrics (arrived ob))"

subsection \<open>A stub attack for concrete runs\<close>

text \<open>
  Instances are numbered by the world, a counter of the clones made. The second clone
  fails its \<^verbatim>\<open>Setup\<close>, the first instance fails its \<^verbatim>\<open>Teardown\<close>, every call succeeds.
\<close>

definition stubAttack :: "(nat, nat) Attack" where
  "stubAttack =
     \<lparr>Clone = (\<lambda>p w. (Suc w, Suc w)),
      Setup = (\<lambda>a c w. (if a = 2 then Some ''setup failed'' else None, w)),
      Do = (\<lambda>a w. (\<lparr>RequestLabel = ''get'', StatusCode = 200, Error = None\<rparr>, w)),
      Teardown = (\<lambda>a w. (if a = 1 then Some ''teardown failed'' else None, w))\<rparr>"

definition stubConfig :: Config where
  "stubConfig =
     \<lparr>RPS = 10, AttackTimeSec = 5, RampupTimeSec = 2, MaxAttackers = 3,
      Verbose = False, OutputFilename = []\<rparr>"

definition stubRunner :: "(nat, nat) runner" where
  "stubRunner = init (new_runner 0 stubConfig 0)"


definition stubOutcome :: result where
  "stubOutcome =
     \<lparr>doResult = \<lparr>RequestLabel = ''get'', StatusCode = 200, Error = None\<rparr>, latency = 3\<rparr>"

definition stubObs :: "int \<Rightarrow> step_obs" where
  "stubObs i = \<lparr>ticks = 5, arrived = replicate (nat i) stubOutcome, window = 1\<rparr>"


text \<open>
  The outside of the stub runs: no sample flag, a valid configuration, the linear
  strategy, for which the stub takes the ramp-up of the earlier revision; and the same
  with a strategy name that \<^verbatim>\<open>rampUp\<close> does not know.
\<close>

definition stubOutside :: "(nat, nat) outside" where
  "stubOutside =
     \<lparr>oSample = 0, Validate = (\<lambda>c. []), rampupStrategy = (\<lambda>c. ''linear''),
      linearExecute = rampUp_linear stubAttack stubObs,
      spawnAsWeNeedExecute = (\<lambda>r. Inr r),
      fullTicks = 4, fullArrived = [stubOutcome, stubOutcome],
      fullAttackStartedAt = 100, finishedAt = 105, windows = (\<lambda>l. 5)\<rparr>"

definition unknownOutside :: "(nat, nat) outside" where
  "unknownOutside = stubOutside\<lparr>rampupStrategy := (\<lambda>c. ''quadratic'')\<rparr>"


text \<open>A call outcome that carries an error, under another label.\<close>

definition failedOutcome :: result where
  "failedOutcome =
     \<lparr>doResult = \<lparr>RequestLabel = ''put'', StatusCode = 500, Error = Some ''refused''\<rparr>,
      latency = 7\<rparr>"

section \<open>Basic facts\<close>

lemma started_append [simp]: "started (t @ u) = started t @ started u"
  by (simp add: started_def)

lemma started_simps [simp]:
  "started [] = []"
  "started (Go a # t) = a # started t"
  "started (CloneCall a # t) = started t"
  "started (SetupCall a # t) = started t"
  "started (DoCall a # t) = started t"
  "started (TeardownCall a # t) = started t"
  "started (NewLimiter k # t) = started t"
  "started (SendNext # t) = started t"
  "started (SendQuit # t) = started t"
  "started (ValidateCall # t) = started t"
  by (simp_all add: started_def)

lemma stubRunner_simps [simp]:
  "config stubRunner = stubConfig"
  "attackers stubRunner = []"
  "prototype stubRunner = 0"
  "resultsPipeline stubRunner = AddResult"
  "rampMetrics stubRunner = None"
  "world stubRunner = 0"
  "trace stubRunner = []"
  "stubRunner\<lparr>resultsPipeline := AddResult\<rparr> = stubRunner"
  by (simp_all add: stubRunner_def init_def new_runner_def)

lemma stubAttack_simps [simp]:
  "Clone stubAttack p w = (Suc w, Suc w)"
  "Setup stubAttack a c w = (if a = 2 then Some ''setup failed'' else None, w)"
  "Do stubAttack a w = (\<lparr>RequestLabel = ''get'', StatusCode = 200, Error = None\<rparr>, w)"
  "Teardown stubAttack a w = (if a = 1 then Some ''teardown failed'' else None, w)"
  by (simp_all add: stubAttack_def)

lemma stubConfig_simps [simp]:
  "RPS stubConfig = 10"
  "AttackTimeSec stubConfig = 5"
  "RampupTimeSec stubConfig = 2"
  "MaxAttackers stubConfig = 3"
  "Verbose stubConfig = False"
  by (simp_all add: stubConfig_def)

subsection \<open>Channels and the collector\<close>

lemma count_list_append [simp]: "count_list (xs @ ys) x = count_list xs x + count_list ys x"
  by (induction xs) simp_all

lemma count_list_replicate_same [simp]: "count_list (replicate n x) x = n"
  by (induction n) simp_all

lemma started_replicate_quit [simp]: "started (replicate n SendQuit) = []"
  by (induction n) simp_all

lemma started_replicate_next [simp]: "started (replicate n SendNext) = []"
  by (induction n) simp_all

lemma count_quit_replicate_next [simp]: "count_list (replicate n SendNext) SendQuit = 0"
  by (induction n) simp_all

lemma liveUnits_next [simp]: "liveUnits (t @ [SendNext]) = liveUnits t"
  by (simp add: liveUnits_def)

lemma liveUnits_limiter [simp]: "liveUnits (t @ [NewLimiter k]) = liveUnits t"
  by (simp add: liveUnits_def)

lemma dispatch_eq:
  "dispatch n r =
     (if n = 0 \<or> 0 < liveUnits (trace r)
      then Inr (r\<lparr>trace := trace r @ replicate n SendNext\<rparr>) else Inl Deadlock)"
proof (induction n arbitrary: r)
  case 0
  show ?case by simp
next
  case (Suc n)
  show ?case
    by (simp add: Suc.IH replicate_app_Cons_same)
qed

lemma collectResults_AddResult:
  "resultsPipeline r = AddResult \<Longrightarrow> collectResults r outs = Inr (foldl addResult r outs)"
proof (induction outs arbitrary: r)
  case Nil
  show ?case by simp
next
  case (Cons s outs)
  have "resultsPipeline (addResult r s) = AddResult"
    using Cons.prems by (simp add: addResult_def Let_def)
  from Cons.IH [OF this] show ?case
    using Cons.prems by (simp add: collect_def)
qed

lemma collectResults_RampAdd:
  "resultsPipeline r = RampAdd \<Longrightarrow> rampMetrics r = Some m \<Longrightarrow>
     collectResults r outs = Inr (r\<lparr>rampMetrics := Some (foldl add m outs)\<rparr>)"
proof (induction outs arbitrary: r m)
  case Nil
  then show ?case by simp
next
  case (Cons s outs)
  let ?r = "r\<lparr>rampMetrics := Some (add m s)\<rparr>"
  have "collectResults ?r outs = Inr (?r\<lparr>rampMetrics := Some (foldl add (add m s) outs)\<rparr>)"
    by (rule Cons.IH) (simp_all add: Cons.prems)
  then show ?case
    using Cons.prems by (simp add: collect_def)
qed

lemma quitLoop_eq:
  "quitLoop r xs =
     (if length xs \<le> liveUnits (trace r)
      then Inr (r\<lparr>trace := trace r @ replicate (length xs) SendQuit\<rparr>) else Inl Deadlock)"
proof (induction xs arbitrary: r)
  case Nil
  show ?case by simp
next
  case (Cons x xs)
  have l: "liveUnits (trace r @ [SendQuit]) = liveUnits (trace r) - 1"
    by (simp add: liveUnits_def)
  show ?case
    by (auto simp add: Cons.IH l replicate_app_Cons_same)
qed

subsection \<open>Growth of the pool\<close>

lemma cloneCalls_append [simp]: "cloneCalls (t @ u) = cloneCalls t + cloneCalls u"
  by (simp add: cloneCalls_def)

lemma cloneCalls_simps [simp]:
  "cloneCalls [] = 0"
  "cloneCalls (CloneCall a # t) = Suc (cloneCalls t)"
  "cloneCalls (SetupCall a # t) = cloneCalls t"
  "cloneCalls (DoCall a # t) = cloneCalls t"
  "cloneCalls (TeardownCall a # t) = cloneCalls t"
  "cloneCalls (Go a # t) = cloneCalls t"
  "cloneCalls (NewLimiter k # t) = cloneCalls t"
  "cloneCalls (SendNext # t) = cloneCalls t"
  "cloneCalls (SendQuit # t) = cloneCalls t"
  "cloneCalls (ValidateCall # t) = cloneCalls t"
  by (simp_all add: cloneCalls_def)

lemma spawnTrace_append [simp]: "spawnTrace (t @ u) \<longleftrightarrow> spawnTrace t \<and> spawnTrace u"
  by (simp add: spawnTrace_def)

lemma spawnTrace_Nil [simp]: "spawnTrace []"
  by (simp add: spawnTrace_def)

lemma spawnTrace_no_quit: "spawnTrace t \<Longrightarrow> count_list t SendQuit = 0"
  by (induction t) (auto simp: spawnTrace_def split: event.splits)

lemma spawnTrace_no_next: "spawnTrace t \<Longrightarrow> count_list t SendNext = 0"
  by (induction t) (auto simp: spawnTrace_def split: event.splits)

lemma poolGrowth_refl: "poolGrowth r r"
  unfolding poolGrowth_def
  by (rule exI [of _ "world r"], rule exI [of _ "[]"]) simp

lemma poolGrowth_trans:
  assumes "poolGrowth r r'" and "poolGrowth r' r''"
  shows "poolGrowth r r''"
proof -
  from assms(1) obtain w t where
    1: "r' = r\<lparr>attackers := attackers r @ started t, world := w, trace := trace r @ t\<rparr>"
    and t: "spawnTrace t" unfolding poolGrowth_def by blast
  from assms(2) obtain w' t' where
    2: "r'' = r'\<lparr>attackers := attackers r' @ started t', world := w', trace := trace r' @ t'\<rparr>"
    and t': "spawnTrace t'" unfolding poolGrowth_def by blast
  have "r'' = r\<lparr>attackers := attackers r @ started (t @ t'), world := w',
                 trace := trace r @ (t @ t')\<rparr>"
    by (simp add: 1 2)
  moreover have "spawnTrace (t @ t')" using t t' by simp
  ultimately show ?thesis unfolding poolGrowth_def by blast
qed

lemma poolGrowth_spawnAttacker: "poolGrowth r (spawnAttacker A r)"
proof -
  obtain a w1 where c: "Clone A (prototype r) (world r) = (a, w1)"
    by (cases "Clone A (prototype r) (world r)")
  obtain err w2 where s: "Setup A a (config r) w1 = (err, w2)"
    by (cases "Setup A a (config r) w1")
  show ?thesis
  proof (cases "err = None")
    case True
    have "spawnAttacker A r = r\<lparr>attackers := attackers r @ started [CloneCall a, SetupCall a, Go a],
             world := w2, trace := trace r @ [CloneCall a, SetupCall a, Go a]\<rparr>"
      using c s True by (simp add: spawnAttacker_def)
    moreover have "spawnTrace [CloneCall a, SetupCall a, Go a]" by (simp add: spawnTrace_def)
    ultimately show ?thesis unfolding poolGrowth_def by blast
  next
    case False
    have "spawnAttacker A r = r\<lparr>attackers := attackers r @ started [CloneCall a, SetupCall a],
             world := w2, trace := trace r @ [CloneCall a, SetupCall a]\<rparr>"
      using c s False by (simp add: spawnAttacker_def)
    moreover have "spawnTrace [CloneCall a, SetupCall a]" by (simp add: spawnTrace_def)
    ultimately show ?thesis unfolding poolGrowth_def by blast
  qed
qed

lemma poolGrowth_frame:
  assumes "poolGrowth r r'"
  shows "config r' = config r" "prototype r' = prototype r" "metrics r' = metrics r"
    "resultsPipeline r' = resultsPipeline r" "rampMetrics r' = rampMetrics r"
  using assms unfolding poolGrowth_def by auto

lemma poolGrowth_started:
  assumes "poolGrowth r r'" "started (trace r) = attackers r"
  shows "started (trace r') = attackers r'"
  using assms unfolding poolGrowth_def by auto

lemma poolGrowth_liveUnits:
  assumes "poolGrowth r r'"
  shows "liveUnits (trace r) \<le> liveUnits (trace r')"
    "count_list (trace r') SendQuit = count_list (trace r) SendQuit"
    "count_list (trace r') SendNext = count_list (trace r) SendNext"
  using assms unfolding poolGrowth_def liveUnits_def
  by (auto simp: spawnTrace_no_quit spawnTrace_no_next)

lemma spawnAttacker_config [simp]: "config (spawnAttacker A r) = config r"
  by (rule poolGrowth_frame [OF poolGrowth_spawnAttacker])

lemma spawnAttacker_cloneCalls [simp]:
  "cloneCalls (trace (spawnAttacker A r)) = Suc (cloneCalls (trace r))"
  by (simp add: spawnAttacker_def split: prod.splits)

lemma spawnAttacker_length:
  "length (attackers (spawnAttacker A r)) \<le> Suc (length (attackers r))"
  "length (attackers r) \<le> length (attackers (spawnAttacker A r))"
  by (simp_all add: spawnAttacker_def split: prod.splits)

lemma poolGrowth_spawnLoop: "poolGrowth r (spawnLoop A s wanted r)"
proof (induction A s wanted r rule: spawnLoop.induct)
  case (1 A s wanted r)
  show ?case
  proof (cases "s < wanted")
    case False
    then show ?thesis by (subst spawnLoop.simps) (simp add: poolGrowth_refl)
  next
    case True
    show ?thesis
    proof (cases "s < MaxAttackers (config r)")
      case True
      with \<open>s < wanted\<close> have "poolGrowth (spawnAttacker A r) (spawnLoop A (s + 1) wanted (spawnAttacker A r))"
        by (rule "1.IH"(1))
      with poolGrowth_spawnAttacker have "poolGrowth r (spawnLoop A (s + 1) wanted (spawnAttacker A r))"
        by (rule poolGrowth_trans)
      then show ?thesis using True \<open>s < wanted\<close> by (subst spawnLoop.simps) simp
    next
      case False
      show ?thesis
      proof (cases "Verbose (config r)")
        case True
        then show ?thesis using False \<open>s < wanted\<close>
          by (subst spawnLoop.simps) (simp add: poolGrowth_refl)
      next
        case nv: False
        with \<open>s < wanted\<close> False have "poolGrowth r (spawnLoop A (s + 1) wanted r)"
          by (rule "1.IH"(2))
        then show ?thesis using False nv \<open>s < wanted\<close> by (subst spawnLoop.simps) simp
      qed
    qed
  qed
qed


lemma spawnLoop_length:
  "int (length (attackers r)) \<le> s \<Longrightarrow>
   int (length (attackers (spawnLoop A s wanted r)))
     \<le> max (int (length (attackers r))) (MaxAttackers (config r))"
proof (induction A s wanted r rule: spawnLoop.induct)
  case (1 A s wanted r)
  show ?case
  proof (cases "s < wanted")
    case False
    then show ?thesis by (subst spawnLoop.simps) simp
  next
    case True
    show ?thesis
    proof (cases "s < MaxAttackers (config r)")
      case True
      have le: "int (length (attackers (spawnAttacker A r))) \<le> s + 1"
        using spawnAttacker_length(1) [of A r] "1.prems" by linarith
      from "1.IH"(1) [OF \<open>s < wanted\<close> True le]
      have "int (length (attackers (spawnLoop A (s + 1) wanted (spawnAttacker A r))))
              \<le> max (int (length (attackers (spawnAttacker A r)))) (MaxAttackers (config r))"
        by simp
      also have "\<dots> \<le> max (int (length (attackers r))) (MaxAttackers (config r))"
        using le True by linarith
      finally show ?thesis using True \<open>s < wanted\<close> by (subst spawnLoop.simps) simp
    next
      case False
      show ?thesis
      proof (cases "Verbose (config r)")
        case True
        then show ?thesis using False \<open>s < wanted\<close>
          by (subst spawnLoop.simps) simp
      next
        case nv: False
        have "int (length (attackers r)) \<le> s + 1" using "1.prems" by simp
        from "1.IH"(2) [OF \<open>s < wanted\<close> False nv this]
        show ?thesis using False nv \<open>s < wanted\<close> by (subst spawnLoop.simps) simp
      qed
    qed
  qed
qed

subsection \<open>A step of the linear ramp-up\<close>

lemma poolGrowth_growPool: "poolGrowth r (growPool A rps rate r)"
  by (simp add: growPool_def Let_def poolGrowth_refl poolGrowth_spawnLoop)

lemma growPool_length:
  "int (length (attackers (growPool A rps rate r)))
     \<le> max (int (length (attackers r))) (MaxAttackers (config r))"
  using spawnLoop_length [of r "int (length (attackers r))" A]
  by (simp add: growPool_def Let_def)


lemma rampStep_eq:
  "rampStep A ob i r =
     (if ticks ob = 0 \<or> 0 < liveUnits (trace r)
      then Inr (growPool A (stepRPS (config r) i) (Rate (stepRecord ob))
                  (r\<lparr>resultsPipeline := RampAdd,
                     trace := trace r @ NewLimiter (stepRPS (config r) i)
                                # replicate (ticks ob) SendNext,
                     rampMetrics := Some (stepRecord ob)\<rparr>))
      else Inl Deadlock)"
  by (simp add: rampStep_def Let_def dispatch_eq stepRecord_def
      collectResults_RampAdd [where m = new_Metrics])

lemma growPool_frame [simp]:
  "config (growPool A rps rate r) = config r"
  "prototype (growPool A rps rate r) = prototype r"
  "metrics (growPool A rps rate r) = metrics r"
  "resultsPipeline (growPool A rps rate r) = resultsPipeline r"
  "rampMetrics (growPool A rps rate r) = rampMetrics r"
  by (rule poolGrowth_frame [OF poolGrowth_growPool])+

lemma rampStep_frame:
  assumes "rampStep A ob i r = Inr r'"
  shows "config r' = config r" "prototype r' = prototype r" "metrics r' = metrics r"
    "resultsPipeline r' = RampAdd" "rampMetrics r' = Some (stepRecord ob)"
  using assms by (auto simp: rampStep_eq split: if_splits)

lemma rampStep_length:
  assumes "rampStep A ob i r = Inr r'"
  shows "int (length (attackers r')) \<le> max (int (length (attackers r))) (MaxAttackers (config r))"
proof -
  let ?r3 = "r\<lparr>resultsPipeline := RampAdd,
                     trace := trace r @ NewLimiter (stepRPS (config r) i)
                                # replicate (ticks ob) SendNext,
                     rampMetrics := Some (stepRecord ob)\<rparr>"
  from assms have "r' = growPool A (stepRPS (config r) i) (Rate (stepRecord ob)) ?r3"
    by (simp add: rampStep_eq split: if_splits)
  with growPool_length [of A "stepRPS (config r) i" "Rate (stepRecord ob)" ?r3]
  show ?thesis by simp
qed

lemma rampStep_started:
  assumes "rampStep A ob i r = Inr r'" and "started (trace r) = attackers r"
  shows "started (trace r') = attackers r'"
    and "count_list (trace r') SendQuit = count_list (trace r) SendQuit"
proof -
  let ?r3 = "r\<lparr>resultsPipeline := RampAdd,
                     trace := trace r @ NewLimiter (stepRPS (config r) i)
                                # replicate (ticks ob) SendNext,
                     rampMetrics := Some (stepRecord ob)\<rparr>"
  from assms have r': "r' = growPool A (stepRPS (config r) i) (Rate (stepRecord ob)) ?r3"
    by (simp add: rampStep_eq split: if_splits)
  have g: "poolGrowth ?r3 r'" unfolding r' by (rule poolGrowth_growPool)
  have "started (trace ?r3) = attackers ?r3" using assms(2) by simp
  with g show "started (trace r') = attackers r'" by (rule poolGrowth_started)
  from poolGrowth_liveUnits(2) [OF g]
  show "count_list (trace r') SendQuit = count_list (trace r) SendQuit" by simp
qed

lemma rampLoop_invariant:
  "(\<forall>i s s'. P s \<longrightarrow> rampStep A (obs i) i s = Inr s' \<longrightarrow> P s') \<Longrightarrow>
     P r \<Longrightarrow> rampLoop A obs n i r = Inr r' \<Longrightarrow> P r'"
proof (induction A obs n i r rule: rampLoop.induct)
  case (1 A obs n i r)
  show ?case
  proof (cases "i \<le> n")
    case False
    with "1.prems" show ?thesis by (simp add: rampLoop.simps [of A obs n i r])
  next
    case True
    with "1.prems"(3) obtain s where s: "rampStep A (obs i) i r = Inr s"
      and l: "rampLoop A obs n (i + 1) s = Inr r'"
      by (simp add: rampLoop.simps [of A obs n i r] split: sum.splits)
    have "P s" using "1.prems"(1) "1.prems"(2) s by blast
    from "1.IH" [OF True s "1.prems"(1) this l] show ?thesis .
  qed
qed



lemma Requests_foldl_add [simp]: "Requests (foldl add m xs) = Requests m + length xs"
  by (induction xs arbitrary: m) (simp_all add: add_def)

lemma Rate_stepRecord: "Rate (stepRecord ob) = real (length (arrived ob)) / window ob"
  by (simp add: stepRecord_def updateLatencies_def new_Metrics_def)

lemma stubObs_simps [simp]:
  "ticks (stubObs i) = 5" "arrived (stubObs i) = replicate (nat i) stubOutcome"
  "window (stubObs i) = 1"
  by (simp_all add: stubObs_def)

lemmas run_simps =
  rampUp_linear_def rampLoop.simps rampStep_eq spawnAttacker_def liveUnits_def stepRPS_def
  go_div_def growPool_def Rate_stepRecord spawnThresholdRatio_def trunc_def Let_def
  spawnLoop.simps

lemma cloneCalls_replicate_next [simp]: "cloneCalls (replicate n SendNext) = 0"
  by (induction n) simp_all



subsection \<open>Units and instances\<close>

lemma init_pool_invariant:
  "started (trace (init (new_runner a c w))) = attackers (init (new_runner a c w))"
  "count_list (trace (init (new_runner a c w))) SendQuit = 0"
  by (simp_all add: init_def new_runner_def)

lemma fullAttack_eq:
  "resultsPipeline r = AddResult \<Longrightarrow>
   fullAttack n outs r =
     (if n = 0 \<or> 0 < liveUnits (trace r)
      then Inr (foldl addResult
                  (r\<lparr>trace := trace r @ NewLimiter (RPS (config r)) # replicate n SendNext\<rparr>) outs)
      else Inl Deadlock)"
  by (simp add: fullAttack_def Let_def dispatch_eq collectResults_AddResult)

lemma addResult_frame [simp]:
  "config (addResult r s) = config r" "attackers (addResult r s) = attackers r"
  "prototype (addResult r s) = prototype r" "resultsPipeline (addResult r s) = resultsPipeline r"
  "rampMetrics (addResult r s) = rampMetrics r" "world (addResult r s) = world r"
  "trace (addResult r s) = trace r"
  by (simp_all add: addResult_def Let_def)

lemma foldl_addResult_frame [simp]:
  "config (foldl addResult r outs) = config r"
  "attackers (foldl addResult r outs) = attackers r"
  "prototype (foldl addResult r outs) = prototype r"
  "resultsPipeline (foldl addResult r outs) = resultsPipeline r"
  "rampMetrics (foldl addResult r outs) = rampMetrics r"
  "world (foldl addResult r outs) = world r"
  "trace (foldl addResult r outs) = trace r"
  by (induction outs arbitrary: r) simp_all

lemma rampUp_linear_started:
  assumes "rampUp_linear A obs r = Inr r'" and "started (trace r) = attackers r"
  shows "started (trace r') = attackers r' \<and>
         count_list (trace r') SendQuit = count_list (trace r) SendQuit"
proof -
  let ?P = "\<lambda>s. started (trace s) = attackers s \<and>
                 count_list (trace s) SendQuit = count_list (trace r) SendQuit"
  let ?r0 = "(spawnAttacker A r)\<lparr>rampMetrics := None\<rparr>"
  from assms(1) obtain r1 where l: "rampLoop A obs (RampupTimeSec (config ?r0)) 1 ?r0 = Inr r1"
    and r': "r' = r1\<lparr>resultsPipeline := AddResult\<rparr>"
    by (auto simp: rampUp_linear_def Let_def split: sum.splits if_splits)
  have step: "\<forall>i s s'. ?P s \<longrightarrow> rampStep A (obs i) i s = Inr s' \<longrightarrow> ?P s'"
    using rampStep_started by metis
  have "?P ?r0"
    using poolGrowth_started [OF poolGrowth_spawnAttacker [of r A] assms(2)]
      poolGrowth_liveUnits(2) [OF poolGrowth_spawnAttacker [of r A]]
    by simp
  from rampLoop_invariant [of ?P, OF step this l] show ?thesis by (simp add: r')
qed

lemma fullAttack_started:
  assumes "fullAttack n outs r = Inr r'" and "resultsPipeline r = AddResult"
    and "started (trace r) = attackers r"
  shows "started (trace r') = attackers r' \<and>
         count_list (trace r') SendQuit = count_list (trace r) SendQuit"
  using assms by (auto simp: fullAttack_eq split: if_splits)

lemma stubOutside_simps [simp]:
  "oSample stubOutside = 0" "Validate stubOutside c = []"
  "rampupStrategy stubOutside c = ''linear''"
  "linearExecute stubOutside = rampUp_linear stubAttack stubObs"
  "spawnAsWeNeedExecute stubOutside r = Inr r"
  "fullTicks stubOutside = 4" "fullArrived stubOutside = [stubOutcome, stubOutcome]"
  "fullAttackStartedAt stubOutside = 100" "finishedAt stubOutside = 105"
  "windows stubOutside l = 5"
  by (simp_all add: stubOutside_def)

lemma addResult_trace_update:
  "addResult (s\<lparr>trace := t\<rparr>) a = (addResult s a)\<lparr>trace := t\<rparr>"
  by (simp add: addResult_def Let_def)

lemma foldl_addResult_trace_update:
  "foldl addResult (s\<lparr>trace := t\<rparr>) outs = (foldl addResult s outs)\<lparr>trace := t\<rparr>"
  by (induction outs arbitrary: s) (simp_all add: addResult_trace_update)

lemma rampUp_linear_frame:
  assumes "rampUp_linear A obs r = Inr r'"
  shows "resultsPipeline r' = AddResult \<and> metrics r' = metrics r \<and> config r' = config r"
proof -
  let ?P = "\<lambda>s. metrics s = metrics r \<and> config s = config r"
  let ?r0 = "(spawnAttacker A r)\<lparr>rampMetrics := None\<rparr>"
  from assms obtain r1 where l: "rampLoop A obs (RampupTimeSec (config ?r0)) 1 ?r0 = Inr r1"
    and r': "r' = r1\<lparr>resultsPipeline := AddResult\<rparr>"
    by (auto simp: rampUp_linear_def Let_def split: sum.splits if_splits)
  have step: "\<forall>i s s'. ?P s \<longrightarrow> rampStep A (obs i) i s = Inr s' \<longrightarrow> ?P s'"
    using rampStep_frame(1,3) by metis
  have "?P ?r0"
    using poolGrowth_frame(1,3) [OF poolGrowth_spawnAttacker [of r A]] by simp
  from rampLoop_invariant [of ?P, OF step this l] show ?thesis by (simp add: r')
qed

lemma stubRunner_metrics: "metrics stubRunner = Map.empty"
  by (simp add: stubRunner_def init_def)

lemma Requests_stepRecord [simp]: "Requests (stepRecord ob) = length (arrived ob)"
  by (simp add: stepRecord_def updateLatencies_def new_Metrics_def)

lemma tearDownAttackers_empty: "attackers r = [] \<Longrightarrow> tearDownAttackers A r = r"
  by (simp add: tearDownAttackers_def)

lemma Run_unknown_strategy:
  assumes "oSample E \<le> 0" and "Validate E c = []"
    and "rampupStrategy E c \<noteq> ''linear''" and "rampupStrategy E c \<noteq> ''exp2''"
  shows "Run A E a c w =
           (if fullTicks E = 0
            then Returned
                   (reportMetrics E (foldl addResult
                      (init ((new_runner a c w)\<lparr>trace := [ValidateCall, NewLimiter (RPS c)]\<rparr>))
                      (fullArrived E)))
                   (foldl addResult
                      (init ((new_runner a c w)\<lparr>trace := [ValidateCall, NewLimiter (RPS c)]\<rparr>))
                      (fullArrived E))
            else Panicked Deadlock)"
proof -
  let ?r0 = "init ((new_runner a c w)\<lparr>trace := [ValidateCall]\<rparr>)"
  have r0: "config ?r0 = c" "attackers ?r0 = []" "resultsPipeline ?r0 = AddResult"
    "trace ?r0 = [ValidateCall]" "?r0\<lparr>resultsPipeline := AddResult\<rparr> = ?r0"
    by (simp_all add: init_def new_runner_def)
  have u: "rampUp E ?r0 = Inr ?r0"
    using assms(3,4) r0 by (simp add: rampUp_def)
  have l: "liveUnits (trace ?r0) = 0" by (simp add: r0 liveUnits_def)
  have e: "?r0\<lparr>trace := [ValidateCall, NewLimiter (RPS c)]\<rparr>
             = init ((new_runner a c w)\<lparr>trace := [ValidateCall, NewLimiter (RPS c)]\<rparr>)"
    by (simp add: init_def new_runner_def)
  show ?thesis
  proof (cases "fullTicks E = 0")
    case True
    have f: "fullAttack (fullTicks E) (fullArrived E) ?r0
               = Inr (foldl addResult
                        (init ((new_runner a c w)\<lparr>trace := [ValidateCall, NewLimiter (RPS c)]\<rparr>))
                        (fullArrived E))"
      using True by (simp add: fullAttack_eq [OF r0(3)] r0 e [symmetric])
    let ?r2 = "foldl addResult
                 (init ((new_runner a c w)\<lparr>trace := [ValidateCall, NewLimiter (RPS c)]\<rparr>))
                 (fullArrived E)"
    have a2: "attackers ?r2 = []" by (simp add: init_def)
    have q: "quitAttackers ?r2 = Inr ?r2" by (simp only: quitAttackers_def a2 quitLoop.simps)
    have t: "tearDownAttackers A ?r2 = ?r2" using a2 by (rule tearDownAttackers_empty)
    have "run A E ?r0 = Inr (reportMetrics E ?r2, ?r2)"
      by (simp add: run_def u f q t Let_def)
    then show ?thesis
      using assms(1,2) True
      by (simp add: Run_def Let_def new_runner_def)
  next
    case False
    have f: "fullAttack (fullTicks E) (fullArrived E) ?r0 = Inl Deadlock"
      using False l by (simp add: fullAttack_eq [OF r0(3)])
    have "run A E ?r0 = Inl Deadlock" by (simp add: run_def u f)
    then show ?thesis
      using assms(1,2) False
      by (simp add: Run_def Let_def new_runner_def)
  qed
qed

subsection \<open>The sample loop\<close>



subsection \<open>The metrics map\<close>

lemma Errors_foldl_add [simp]:
  "Errors (foldl add m xs) = Errors m + length (filter (\<lambda>s. Error (doResult s) \<noteq> None) xs)"
  by (induction xs arbitrary: m) (simp_all add: add_def)

lemma Rate_foldl_add [simp]: "Rate (foldl add m xs) = Rate m"
  by (induction xs arbitrary: m) (simp_all add: add_def)

lemma metrics_addResult:
  "metrics (addResult r s) =
     (metrics r)(RequestLabel (doResult s) \<mapsto>
        add (case metrics r (RequestLabel (doResult s)) of None \<Rightarrow> new_Metrics | Some m \<Rightarrow> m) s)"
  by (simp add: addResult_def Let_def)

lemma metrics_foldl_addResult:
  "metrics (foldl addResult r xs) l =
     (if l \<in> (\<lambda>s. RequestLabel (doResult s)) ` set xs
      then Some (foldl add (case metrics r l of None \<Rightarrow> new_Metrics | Some m \<Rightarrow> m)
                   (filter (\<lambda>s. RequestLabel (doResult s) = l) xs))
      else metrics r l)"
proof (induction xs arbitrary: r)
  case Nil
  show ?case by simp
next
  case (Cons x xs)
  show ?case
  proof (cases "RequestLabel (doResult x) = l")
    case True
    show ?thesis
    proof (cases "l \<in> (\<lambda>s. RequestLabel (doResult s)) ` set xs")
      case in_xs: True
      with True show ?thesis by (simp add: Cons.IH metrics_addResult)
    next
      case False
      then have "filter (\<lambda>s. RequestLabel (doResult s) = l) xs = []"
        by (auto simp: filter_empty_conv)
      with True False show ?thesis by (simp add: Cons.IH metrics_addResult)
    qed
  next
    case False
    then show ?thesis
      by (auto simp add: Cons.IH metrics_addResult)
  qed
qed

lemma mset_eq_length_filter:
  assumes "mset xs = mset ys"
  shows "length (filter P xs) = length (filter P ys)"
proof -
  have "mset (filter P xs) = mset (filter P ys)" using assms by (simp only: mset_filter)
  then show ?thesis by (rule mset_eq_length)
qed

section \<open>Spawning an attacker\<close>



section \<open>Shutdown\<close>



section \<open>The linear ramp-up\<close>



lemma rampLoop_rampAfter:
  "int k \<le> n \<Longrightarrow>
   rampLoop A obs n 1 ((spawnAttacker A r)\<lparr>rampMetrics := None\<rparr>) =
     (case rampAfter A obs k r of Inl p \<Rightarrow> Inl p | Inr s \<Rightarrow> rampLoop A obs n (int k + 1) s)"
proof (induction k)
  case 0
  show ?case by simp
next
  case (Suc k)
  then have le: "int k + 1 \<le> n" and "int k \<le> n" by simp_all
  have ih: "rampLoop A obs n 1 ((spawnAttacker A r)\<lparr>rampMetrics := None\<rparr>) =
     (case rampAfter A obs k r of Inl p \<Rightarrow> Inl p | Inr s \<Rightarrow> rampLoop A obs n (int k + 1) s)"
    by (rule Suc.IH) fact
  have e: "int (Suc k) + 1 = int k + 1 + 1" by simp
  show ?case
  proof (cases "rampAfter A obs k r")
    case (Inl p)
    then show ?thesis by (simp add: ih)
  next
    case (Inr s)
    have "rampLoop A obs n (int k + 1) s =
            (case rampStep A (obs (int k + 1)) (int k + 1) s of
               Inl p \<Rightarrow> Inl p | Inr s' \<Rightarrow> rampLoop A obs n (int k + 1 + 1) s')"
      using le by (subst rampLoop.simps) simp
    then show ?thesis unfolding e by (simp add: ih Inr)
  qed
qed

lemma rampAfter_bound:
  assumes "1 \<le> MaxAttackers (config r)" and "attackers r = []"
  shows "rampAfter A obs k r = Inr s \<Longrightarrow>
          config s = config r \<and> int (length (attackers s)) \<le> MaxAttackers (config r)"
proof (induction k arbitrary: s)
  case 0
  then show ?case using assms spawnAttacker_length(1) [of A r] by auto
next
  case (Suc k)
  from Suc.prems obtain s0 where s0: "rampAfter A obs k r = Inr s0"
    and st: "rampStep A (obs (int k + 1)) (int k + 1) s0 = Inr s"
    by (auto split: sum.splits)
  from Suc.IH [OF s0] rampStep_frame(1) [OF st] rampStep_length [OF st]
  show ?case by simp
qed

lemma rampUp_linear_rampAfter:
  assumes "rampUp_linear A obs r = Inr r'"
  shows "\<exists>s. rampAfter A obs (nat (RampupTimeSec (config r))) r = Inr s \<and>
             r' = s\<lparr>resultsPipeline := AddResult\<rparr>"
proof -
  let ?n = "RampupTimeSec (config r)"
  let ?r0 = "(spawnAttacker A r)\<lparr>rampMetrics := None\<rparr>"
  from assms obtain r1 where l: "rampLoop A obs ?n 1 ?r0 = Inr r1"
    and r': "r' = r1\<lparr>resultsPipeline := AddResult\<rparr>"
    by (auto simp: rampUp_linear_def Let_def split: sum.splits if_splits)
  show ?thesis
  proof (cases "0 \<le> ?n")
    case True
    then have "int (nat ?n) \<le> ?n" by simp
    from rampLoop_rampAfter [OF this, of A obs r] l True
    have "rampAfter A obs (nat ?n) r = Inr r1"
      by (cases "rampAfter A obs (nat ?n) r")
         (simp_all add: rampLoop.simps [of A obs ?n "?n + 1"])
    with r' show ?thesis by simp
  next
    case False
    then have "nat ?n = 0" by simp
    moreover from l False have "r1 = ?r0" by (simp add: rampLoop.simps [of A obs ?n 1])
    ultimately show ?thesis using r' by simp
  qed
qed

text \<open>
  Claim C1. Let the pool be empty before the bootstrap spawn and the configured
  maximum be at least 1. Then for every attack (every sequence of \<^verbatim>\<open>Setup\<close> results) and
  every environment (every sequence of measured rates), the pool holds at most
  \<^verbatim>\<open>MaxAttackers\<close> instances after the bootstrap spawn and after each step that completes,
  and so it does when \<^verbatim>\<open>rampUp\<close> returns. The states \<open>rampAfter\<close> names are those of the
  loop: the result of \<^verbatim>\<open>rampUp\<close> is the state after the last step, with the pipeline restored.
\<close>

theorem linear_rampUp_pool_bound:
  assumes "1 \<le> MaxAttackers (config r)" and "attackers r = []"
  shows "(\<forall>k s. rampAfter A obs k r = Inr s \<longrightarrow>
            int (length (attackers s)) \<le> MaxAttackers (config r)) \<and>
         (\<forall>r'. rampUp_linear A obs r = Inr r' \<longrightarrow>
            int (length (attackers r')) \<le> MaxAttackers (config r) \<and>
            (\<exists>s. rampAfter A obs (nat (RampupTimeSec (config r))) r = Inr s \<and>
                 r' = s\<lparr>resultsPipeline := AddResult\<rparr>))"
proof -
  have 1: "int (length (attackers s)) \<le> MaxAttackers (config r)"
    if "rampAfter A obs k r = Inr s" for k s
    using rampAfter_bound [OF assms that] by simp
  have 2: "int (length (attackers r')) \<le> MaxAttackers (config r) \<and>
            (\<exists>s. rampAfter A obs (nat (RampupTimeSec (config r))) r = Inr s \<and>
                 r' = s\<lparr>resultsPipeline := AddResult\<rparr>)"
    if "rampUp_linear A obs r = Inr r'" for r'
  proof -
    from rampUp_linear_rampAfter [OF that] obtain s where
      s: "rampAfter A obs (nat (RampupTimeSec (config r))) r = Inr s"
      and r': "r' = s\<lparr>resultsPipeline := AddResult\<rparr>" by blast
    from 1 [OF s] s r' show ?thesis by simp
  qed
  from 1 2 show ?thesis by blast
qed

text \<open>
  The stub run: the measured rates ask for 5 and then 10 instances; the second clone
  fails its setup; the pool ends with the 3 instances the maximum allows.
\<close>

theorem linear_rampUp_pool_bound_witness:
  "1 \<le> MaxAttackers (config stubRunner) \<and> attackers stubRunner = [] \<and>
   map_sum id attackers (rampUp_linear stubAttack stubObs stubRunner) = Inr [1, 3, 4] \<and>
   int (length [1, 3, 4 :: nat]) \<le> MaxAttackers (config stubRunner)"
proof -
  have h1: "1 \<le> MaxAttackers (config stubRunner)" by simp
  have h2: "attackers stubRunner = []" by simp
  have ev: "map_sum id attackers (rampUp_linear stubAttack stubObs stubRunner) = Inr [1, 3, 4]"
    by (simp add: run_simps)
  then obtain r' where r': "rampUp_linear stubAttack stubObs stubRunner = Inr r'"
    and a: "attackers r' = [1, 3, 4]"
    by (cases "rampUp_linear stubAttack stubObs stubRunner") auto
  from linear_rampUp_pool_bound [OF h1 h2, of stubAttack stubObs] r'
  have "int (length (attackers r')) \<le> MaxAttackers (config stubRunner)" by blast
  with h1 h2 ev a show ?thesis by simp
qed





section \<open>Quit signals\<close>

text \<open>
  Claim C5. Let every registered instance have its started unit and no quit signal
  have been sent: so it is in a runner made by \<^verbatim>\<open>init\<close> (\<open>init_pool_invariant\<close>), so it stays
  under \<^verbatim>\<open>spawnAttacker\<close>, which starts a unit exactly when it registers the instance, and
  under the linear ramp-up and the full attack (\<open>rampUp_linear_started\<close>,
  \<open>fullAttack_started\<close>). Then \<^verbatim>\<open>quitAttackers\<close> returns and has sent exactly one quit signal
  for each registered instance, \<^verbatim>\<open>len(r.attackers)\<close> in all, which is the number of live
  units. Afterwards the signals sent are as many as the units started, no unit is live,
  and one more quit signal would find no unit to receive it: none is left unsignaled
  and none is signaled twice.
\<close>

theorem quitAttackers_one_per_unit:
  assumes "started (trace r) = attackers r" and "count_list (trace r) SendQuit = 0"
  shows "quitAttackers r = Inr (r\<lparr>trace := trace r @ replicate (length (attackers r)) SendQuit\<rparr>) \<and>
         liveUnits (trace r) = length (attackers r) \<and>
         (\<forall>r'. quitAttackers r = Inr r' \<longrightarrow>
            count_list (trace r') SendQuit = length (started (trace r')) \<and>
            liveUnits (trace r') = 0 \<and>
            quitLoop r' [a] = Inl Deadlock) \<and>
         started (trace (spawnAttacker A r)) = attackers (spawnAttacker A r) \<and>
         count_list (trace (spawnAttacker A r)) SendQuit = 0"
proof -
  have live: "liveUnits (trace r) = length (attackers r)"
    using assms by (simp add: liveUnits_def)
  have q: "quitAttackers r
             = Inr (r\<lparr>trace := trace r @ replicate (length (attackers r)) SendQuit\<rparr>)"
    by (simp add: quitAttackers_def quitLoop_eq live)
  have after: "count_list (trace r') SendQuit = length (started (trace r')) \<and>
            liveUnits (trace r') = 0 \<and> quitLoop r' [a] = Inl Deadlock"
    if "quitAttackers r = Inr r'" for r'
    using that assms unfolding q by (auto simp: liveUnits_def)
  have s1: "started (trace (spawnAttacker A r)) = attackers (spawnAttacker A r)"
    using poolGrowth_spawnAttacker assms(1) by (rule poolGrowth_started)
  have s2: "count_list (trace (spawnAttacker A r)) SendQuit = 0"
    using poolGrowth_liveUnits(2) [OF poolGrowth_spawnAttacker [of r A]] assms(2) by simp
  from q live after s1 s2 show ?thesis by blast
qed

text \<open>
  Three spawns of the stub, the second failing its setup: two instances, two units, two
  quit signals.
\<close>

theorem quitAttackers_one_per_unit_witness:
  "started (trace (spawnAttacker stubAttack (spawnAttacker stubAttack (spawnAttacker stubAttack stubRunner))))
     = attackers (spawnAttacker stubAttack (spawnAttacker stubAttack (spawnAttacker stubAttack stubRunner))) \<and>
   count_list (trace (spawnAttacker stubAttack (spawnAttacker stubAttack (spawnAttacker stubAttack stubRunner)))) SendQuit = 0 \<and>
   attackers (spawnAttacker stubAttack (spawnAttacker stubAttack (spawnAttacker stubAttack stubRunner))) = [1, 3] \<and>
   map_sum id (\<lambda>r'. (count_list (trace r') SendQuit, liveUnits (trace r')))
     (quitAttackers (spawnAttacker stubAttack (spawnAttacker stubAttack (spawnAttacker stubAttack stubRunner))))
     = Inr (2, 0)"
proof -
  let ?r = "spawnAttacker stubAttack (spawnAttacker stubAttack (spawnAttacker stubAttack stubRunner))"
  have h1: "started (trace ?r) = attackers ?r" by (simp add: spawnAttacker_def)
  have h2: "count_list (trace ?r) SendQuit = 0" by (simp add: spawnAttacker_def)
  have a: "attackers ?r = [1, 3]" by (simp add: spawnAttacker_def)
  have "quitAttackers ?r = Inr (?r\<lparr>trace := trace ?r @ replicate (length (attackers ?r)) SendQuit\<rparr>)"
    using quitAttackers_one_per_unit [OF h1 h2] by (rule conjunct1)
  then have "map_sum id (\<lambda>r'. (count_list (trace r') SendQuit, liveUnits (trace r')))
     (quitAttackers ?r) = Inr (2, 0)"
    using h1 h2 a by (simp add: liveUnits_def)
  with h1 h2 a show ?thesis by blast
qed


section \<open>The pipeline after the ramp-up\<close>

text \<open>
  Claim C4. Whatever the strategies do and whatever name the configuration selects, also
  one that matches no case of the switch, a \<^verbatim>\<open>rampUp\<close> that returns leaves the field
  \<^verbatim>\<open>resultsPipeline\<close> at \<^verbatim>\<open>addResult\<close>. An outcome the collector then processes is added to the
  cumulative metrics map and leaves the record of the last ramp-up step as it was; so
  do all the outcomes of the full attack. The ramp-up of the earlier revision restores
  the pipeline in the same way and returns the cumulative map as it found it; and each
  of its steps leaves the cumulative map unchanged and holds in its own new record
  exactly the outcomes processed during the step.
\<close>

theorem rampUp_restores_pipeline:
  "(\<forall>r1. rampUp E r = Inr r1 \<longrightarrow>
      resultsPipeline r1 = AddResult \<and>
      (\<forall>s. collect r1 s = Inr (addResult r1 s) \<and>
           rampMetrics (addResult r1 s) = rampMetrics r1) \<and>
      (\<forall>n outs r2. fullAttack n outs r1 = Inr r2 \<longrightarrow>
         metrics r2 = metrics (foldl addResult r1 outs) \<and> rampMetrics r2 = rampMetrics r1)) \<and>
   (\<forall>r1. rampUp_linear A obs r = Inr r1 \<longrightarrow>
      resultsPipeline r1 = AddResult \<and> metrics r1 = metrics r) \<and>
   (\<forall>ob i r'. rampStep A ob i r = Inr r' \<longrightarrow>
      metrics r' = metrics r \<and>
      rampMetrics r'
        = Some (updateLatencies (window ob) (foldl add new_Metrics (arrived ob))))"
proof -
  have a: "resultsPipeline r1 = AddResult \<and>
      (\<forall>s. collect r1 s = Inr (addResult r1 s) \<and>
           rampMetrics (addResult r1 s) = rampMetrics r1) \<and>
      (\<forall>n outs r2. fullAttack n outs r1 = Inr r2 \<longrightarrow>
         metrics r2 = metrics (foldl addResult r1 outs) \<and> rampMetrics r2 = rampMetrics r1)"
    if "rampUp E r = Inr r1" for r1
  proof -
    from that have p: "resultsPipeline r1 = AddResult"
      by (auto simp: rampUp_def Let_def split: sum.splits)
    have c: "collect r1 s = Inr (addResult r1 s) \<and> rampMetrics (addResult r1 s) = rampMetrics r1"
      for s using p by (simp add: collect_def)
    have f: "metrics r2 = metrics (foldl addResult r1 outs) \<and> rampMetrics r2 = rampMetrics r1"
      if "fullAttack n outs r1 = Inr r2" for n outs r2
    proof -
      let ?r = "r1\<lparr>trace := trace r1 @ NewLimiter (RPS (config r1)) # replicate n SendNext\<rparr>"
      from that have r2: "r2 = foldl addResult ?r outs"
        by (simp add: fullAttack_eq [OF p] split: if_splits)
      show ?thesis by (simp add: r2 foldl_addResult_trace_update)
    qed
    from p c f show ?thesis by blast
  qed
  have b: "resultsPipeline r1 = AddResult \<and> metrics r1 = metrics r"
    if "rampUp_linear A obs r = Inr r1" for r1
    using rampUp_linear_frame [OF that] by simp
  have c: "metrics r' = metrics r \<and>
      rampMetrics r' = Some (updateLatencies (window ob) (foldl add new_Metrics (arrived ob)))"
    if "rampStep A ob i r = Inr r'" for ob i r'
    using rampStep_frame(3,5) [OF that] by (simp add: stepRecord_def)
  from a b c show ?thesis by blast
qed

text \<open>
  The stub run: after the ramp-up the cumulative map is still empty and the record of the
  last step holds its 2 outcomes; an outcome of the full attack is counted under its
  label and the step's record still holds 2.
\<close>

theorem rampUp_restores_pipeline_witness:
  "map_sum id (\<lambda>r1. (resultsPipeline r1, metrics r1 ''get'', map_option Requests (rampMetrics r1)))
     (rampUp stubOutside stubRunner) = Inr (AddResult, None, Some 2) \<and>
   map_sum id (\<lambda>r2. (map_option Requests (metrics r2 ''get''),
                      map_option Requests (rampMetrics r2)))
     (case rampUp stubOutside stubRunner of
        Inl p \<Rightarrow> Inl p | Inr r1 \<Rightarrow> fullAttack 4 [stubOutcome] r1) = Inr (Some 1, Some 2)"
proof -
  have ev: "map_sum id (\<lambda>r1. (attackers r1, metrics r1 ''get'',
                map_option Requests (rampMetrics r1), liveUnits (trace r1)))
     (rampUp stubOutside stubRunner) = Inr ([1, 3, 4], None, Some 2, 3)"
    by (simp add: rampUp_def run_simps stubRunner_metrics)
  then obtain r1 where r1: "rampUp stubOutside stubRunner = Inr r1"
    and m1: "metrics r1 ''get'' = None" and rm1: "map_option Requests (rampMetrics r1) = Some 2"
    and l1: "liveUnits (trace r1) = 3"
    by (cases "rampUp stubOutside stubRunner") auto
  from rampUp_restores_pipeline [of stubOutside stubRunner stubAttack stubObs] r1
  have p: "resultsPipeline r1 = AddResult"
    and f: "\<And>n outs r2. fullAttack n outs r1 = Inr r2 \<Longrightarrow>
         metrics r2 = metrics (foldl addResult r1 outs) \<and> rampMetrics r2 = rampMetrics r1"
    by blast+
  obtain r2 where r2: "fullAttack 4 [stubOutcome] r1 = Inr r2"
    using l1 by (simp add: fullAttack_eq [OF p])
  from f [OF r2] have "metrics r2 = metrics (addResult r1 stubOutcome)"
    and rm2: "rampMetrics r2 = rampMetrics r1" by simp_all
  then have m2: "map_option Requests (metrics r2 ''get'') = Some 1"
    using m1 by (simp add: addResult_def stubOutcome_def add_def new_Metrics_def)
  show ?thesis using r1 p m1 rm1 r2 m2 rm2 by simp
qed

text \<open>
  Claim C10. When the strategy name is neither \<^verbatim>\<open>linear\<close> nor \<^verbatim>\<open>exp2\<close>, \<^verbatim>\<open>rampUp\<close> changes nothing of
  the runner but the pipeline, which it sets to \<^verbatim>\<open>addResult\<close>: no attacker is cloned, set up
  or started, and no dispatch signal is sent. \<^verbatim>\<open>run\<close> goes on to the full attack in that
  very state, with the pool as it was: empty, when the runner comes from \<^verbatim>\<open>init\<close>. What
  the full attack then does is stated by \<open>Run_unknown_strategy\<close>: with no unit to receive
  it, the first dispatch signal is never taken.
\<close>

theorem rampUp_unknown_strategy:
  assumes "rampupStrategy E (config r) \<noteq> ''linear''"
    and "rampupStrategy E (config r) \<noteq> ''exp2''"
  shows "rampUp E r = Inr (r\<lparr>resultsPipeline := AddResult\<rparr>) \<and>
         run A E r =
           (case fullAttack (fullTicks E) (fullArrived E) (r\<lparr>resultsPipeline := AddResult\<rparr>) of
              Inl p \<Rightarrow> Inl p
            | Inr r2 \<Rightarrow>
                (case quitAttackers r2 of
                   Inl p \<Rightarrow> Inl p
                 | Inr r3 \<Rightarrow> Inr (reportMetrics E (tearDownAttackers A r3),
                                 tearDownAttackers A r3))) \<and>
         (attackers r = [] \<longrightarrow>
            attackers (r\<lparr>resultsPipeline := AddResult\<rparr>) = [] \<and>
            trace (r\<lparr>resultsPipeline := AddResult\<rparr>) = trace r)"
proof -
  have 1: "rampUp E r = Inr (r\<lparr>resultsPipeline := AddResult\<rparr>)"
    using assms by (simp add: rampUp_def)
  then have 2: "run A E r =
           (case fullAttack (fullTicks E) (fullArrived E) (r\<lparr>resultsPipeline := AddResult\<rparr>) of
              Inl p \<Rightarrow> Inl p
            | Inr r2 \<Rightarrow>
                (case quitAttackers r2 of
                   Inl p \<Rightarrow> Inl p
                 | Inr r3 \<Rightarrow> Inr (reportMetrics E (tearDownAttackers A r3),
                                 tearDownAttackers A r3)))"
    by (auto simp: run_def Let_def split: sum.splits)
  from 1 2 show ?thesis by simp
qed

theorem rampUp_unknown_strategy_witness:
  "rampupStrategy unknownOutside (config stubRunner) \<noteq> ''linear'' \<and>
   rampupStrategy unknownOutside (config stubRunner) \<noteq> ''exp2'' \<and>
   rampUp unknownOutside stubRunner = Inr stubRunner \<and>
   attackers stubRunner = [] \<and> trace stubRunner = [] \<and>
   resultsPipeline stubRunner = AddResult"
proof -
  have h: "rampupStrategy unknownOutside (config stubRunner) \<noteq> ''linear''"
    "rampupStrategy unknownOutside (config stubRunner) \<noteq> ''exp2''"
    by (simp_all add: unknownOutside_def)
  have e: "stubRunner\<lparr>resultsPipeline := AddResult\<rparr> = stubRunner"
    by (simp add: stubRunner_def init_def)
  have "rampUp unknownOutside stubRunner = Inr (stubRunner\<lparr>resultsPipeline := AddResult\<rparr>)"
    using rampUp_unknown_strategy [OF h] by (rule conjunct1)
  with h e show ?thesis by simp
qed


section \<open>Sample mode\<close>





section \<open>Aggregation\<close>

text \<open>
  Claim C8. Let two lists hold the same call outcomes, each as often in the one as in the
  other, in any two orders, and let each be fed through \<^verbatim>\<open>addResult\<close> from the same runner
  (\<open>collectResults\<close> does so while the pipeline is \<^verbatim>\<open>addResult\<close>: \<open>collectResults_AddResult\<close>). Then
  the two metrics maps have the same labels, and for every label \<open>l\<close> the same count, error
  count and rate, in the maps themselves and in the report, where \<^verbatim>\<open>reportMetrics\<close> has
  derived the rate of each record. The latency samples of a record stand in arrival
  order; the claim is not about them.
\<close>

theorem addResult_order_independent:
  assumes "mset xs = mset ys"
  shows "dom (metrics (foldl addResult r xs)) = dom (metrics (foldl addResult r ys)) \<and>
         map_option (\<lambda>m. (Requests m, Errors m, Rate m))
             (ReportMetrics (reportMetrics E (foldl addResult r xs)) l)
           = map_option (\<lambda>m. (Requests m, Errors m, Rate m))
               (ReportMetrics (reportMetrics E (foldl addResult r ys)) l) \<and>
         map_option (\<lambda>m. (Requests m, Errors m, Rate m)) (metrics (foldl addResult r xs) l)
           = map_option (\<lambda>m. (Requests m, Errors m, Rate m))
               (metrics (foldl addResult r ys) l)"
proof -
  have s: "set xs = set ys" using assms by (rule mset_eq_setD)
  have f: "length (filter P xs) = length (filter P ys)" for P :: "result \<Rightarrow> bool"
    using assms by (rule mset_eq_length_filter)
  have ff: "length (filter P (filter Q xs)) = length (filter P (filter Q ys))"
    for P Q :: "result \<Rightarrow> bool"
    using f [of "\<lambda>x. Q x \<and> P x"] by simp
  have m: "map_option (\<lambda>m. (Requests m, Errors m, Rate m)) (metrics (foldl addResult r xs) l)
       = map_option (\<lambda>m. (Requests m, Errors m, Rate m)) (metrics (foldl addResult r ys) l)"
    by (simp add: metrics_foldl_addResult s f ff)
  have d: "dom (metrics (foldl addResult r xs)) = dom (metrics (foldl addResult r ys))"
    by (auto simp add: metrics_foldl_addResult s dom_def)
  have rp: "map_option (\<lambda>m. (Requests m, Errors m, Rate m))
                 (ReportMetrics (reportMetrics E (foldl addResult r xs)) l)
               = map_option (\<lambda>m. (Requests m, Errors m, Rate m))
                   (ReportMetrics (reportMetrics E (foldl addResult r ys)) l)"
    by (simp add: reportMetrics_def metrics_foldl_addResult s f ff updateLatencies_def)
  from d rp m show ?thesis by (intro conjI)
qed

text \<open>
  Two successful calls and a failed one, in two orders: the same counts and rates under
  both labels.
\<close>

theorem addResult_order_independent_witness:
  "mset [stubOutcome, failedOutcome, stubOutcome] = mset [failedOutcome, stubOutcome, stubOutcome] \<and>
   map_option (\<lambda>m. (Requests m, Errors m, Rate m))
     (ReportMetrics (reportMetrics stubOutside
        (foldl addResult stubRunner [stubOutcome, failedOutcome, stubOutcome])) ''get'')
     = Some (2, 0, 2 / 5) \<and>
   map_option (\<lambda>m. (Requests m, Errors m, Rate m))
     (ReportMetrics (reportMetrics stubOutside
        (foldl addResult stubRunner [failedOutcome, stubOutcome, stubOutcome])) ''get'')
     = Some (2, 0, 2 / 5) \<and>
   map_option (\<lambda>m. (Requests m, Errors m, Rate m))
     (ReportMetrics (reportMetrics stubOutside
        (foldl addResult stubRunner [failedOutcome, stubOutcome, stubOutcome])) ''put'')
     = Some (1, 1, 1 / 5) \<and>
   map_option latencies
     (metrics (foldl addResult stubRunner [stubOutcome, failedOutcome, stubOutcome]) ''get'')
     = Some [3, 3]"
proof -
  have h: "mset [stubOutcome, failedOutcome, stubOutcome]
             = mset [failedOutcome, stubOutcome, stubOutcome]" by simp
  have a: "map_option (\<lambda>m. (Requests m, Errors m, Rate m))
     (ReportMetrics (reportMetrics stubOutside
        (foldl addResult stubRunner [stubOutcome, failedOutcome, stubOutcome])) ''get'')
     = Some (2, 0, 2 / 5)"
    by (simp add: reportMetrics_def addResult_def stubRunner_metrics stubOutcome_def
        failedOutcome_def add_def new_Metrics_def updateLatencies_def)
  have b: "map_option (\<lambda>m. (Requests m, Errors m, Rate m))
     (ReportMetrics (reportMetrics stubOutside
        (foldl addResult stubRunner [failedOutcome, stubOutcome, stubOutcome])) ''put'')
     = Some (1, 1, 1 / 5)"
    by (simp add: reportMetrics_def addResult_def stubRunner_metrics stubOutcome_def
        failedOutcome_def add_def new_Metrics_def updateLatencies_def)
  have c: "map_option latencies
     (metrics (foldl addResult stubRunner [stubOutcome, failedOutcome, stubOutcome]) ''get'')
     = Some [3, 3]"
    by (simp add: addResult_def stubRunner_metrics stubOutcome_def
        failedOutcome_def add_def new_Metrics_def)
  from addResult_order_independent
         [OF h, of stubRunner stubOutside "''get''", THEN conjunct2, THEN conjunct1]
  have "map_option (\<lambda>m. (Requests m, Errors m, Rate m))
     (ReportMetrics (reportMetrics stubOutside
        (foldl addResult stubRunner [stubOutcome, failedOutcome, stubOutcome])) ''get'')
     = map_option (\<lambda>m. (Requests m, Errors m, Rate m))
     (ReportMetrics (reportMetrics stubOutside
        (foldl addResult stubRunner [failedOutcome, stubOutcome, stubOutcome])) ''get'')"
    .
  with a have a2: "map_option (\<lambda>m. (Requests m, Errors m, Rate m))
     (ReportMetrics (reportMetrics stubOutside
        (foldl addResult stubRunner [failedOutcome, stubOutcome, stubOutcome])) ''get'')
     = Some (2, 0, 2 / 5)"
    by (simp only:)
  from h a a2 b c show ?thesis by (intro conjI)
qed

end
